theory Spec2Isabelle
  imports Main "HOL-Library.AList"
begin

section \<open>The dependency graph of \<^verbatim>\<open>src/dependency_graph.py\<close>\<close>

text \<open>
  Paths are the strings \<^verbatim>\<open>str(Path(p).resolve())\<close>. Canonicalisation depends on the
  file system, so every operation takes it as the parameter \<open>resolve\<close>.

  A Python \<^verbatim>\<open>set\<close> of paths is a duplicate-free list: membership is \<open>x \<in> set xs\<close> and the
  list order stands for the iteration order, which Python leaves open. The forward
  adjacency \<^verbatim>\<open>self.graph\<close> is iterated by the sort, so it is an association list in
  insertion order; the other dictionaries are only looked up and are maps.
\<close>

type_synonym path = string

type_synonym adjacency = "(path \<times> path list) list"

record dependency_graph =
  graph :: adjacency
  reverse_graph :: "path \<rightharpoonup> path list"
  file_to_module :: "path \<rightharpoonup> string"
  module_to_file :: "string \<rightharpoonup> path"
  file_contents :: "path \<rightharpoonup> string"
  pending_module_dependents :: "string \<rightharpoonup> path list"

definition init_graph :: dependency_graph where
  "init_graph = \<lparr> graph = [], reverse_graph = Map.empty, file_to_module = Map.empty,
     module_to_file = Map.empty, file_contents = Map.empty,
     pending_module_dependents = Map.empty \<rparr>"

text \<open>\<^verbatim>\<open>s.add(x)\<close> on a set.\<close>

definition set_add :: "'a \<Rightarrow> 'a list \<Rightarrow> 'a list" where
  "set_add x xs = (if x \<in> set xs then xs else xs @ [x])"

text \<open>\<^verbatim>\<open>d.get(k, set())\<close>: a lookup that never inserts.\<close>

definition graph_get :: "adjacency \<Rightarrow> path \<Rightarrow> path list" where
  "graph_get g k = (case map_of g k of None \<Rightarrow> [] | Some ds \<Rightarrow> ds)"

definition map_get :: "('k \<rightharpoonup> 'v list) \<Rightarrow> 'k \<Rightarrow> 'v list" where
  "map_get m k = (case m k of None \<Rightarrow> [] | Some ds \<Rightarrow> ds)"

text \<open>\<^verbatim>\<open>if k not in d: d[k] = set()\<close>: a new key goes to the end of the dictionary.\<close>

definition graph_ensure :: "path \<Rightarrow> adjacency \<Rightarrow> adjacency" where
  "graph_ensure k g = (if k \<in> fst ` set g then g else g @ [(k, [])])"

definition map_ensure :: "'k \<Rightarrow> ('k \<rightharpoonup> 'v list) \<Rightarrow> ('k \<rightharpoonup> 'v list)" where
  "map_ensure k m = (if k \<in> dom m then m else m(k \<mapsto> []))"

text \<open>\<^verbatim>\<open>d[k].add(x)\<close> on a \<^verbatim>\<open>defaultdict(set)\<close>: a missing key is created first.\<close>

definition graph_add :: "path \<Rightarrow> path \<Rightarrow> adjacency \<Rightarrow> adjacency" where
  "graph_add k x g = AList.update k (set_add x (graph_get g k)) g"

definition map_add_elem :: "'k \<Rightarrow> 'v \<Rightarrow> ('k \<rightharpoonup> 'v list) \<Rightarrow> ('k \<rightharpoonup> 'v list)" where
  "map_add_elem k x m = m(k \<mapsto> set_add x (map_get m k))"

text \<open>The body of the loop \<^verbatim>\<open>for consumer in pending\<close> of \<^verbatim>\<open>add_file\<close>.\<close>

definition backfill :: "path \<Rightarrow> path \<Rightarrow> dependency_graph \<Rightarrow> dependency_graph" where
  "backfill fp consumer s =
     s\<lparr> graph := graph_add fp consumer (graph s),
        reverse_graph := map_add_elem consumer fp (map_ensure consumer (reverse_graph s)) \<rparr>"

text \<open>
  \<^verbatim>\<open>add_file(file_path, module_name, content=None)\<close>. The test \<^verbatim>\<open>if content:\<close> is false
  for \<^verbatim>\<open>None\<close> and for the empty string.
\<close>

definition add_file ::
  "(string \<Rightarrow> path) \<Rightarrow> string \<Rightarrow> string \<Rightarrow> string option \<Rightarrow> dependency_graph \<Rightarrow> dependency_graph"
where
  "add_file resolve file_path module_name content s =
     (let fp = resolve file_path;
          s1 = s\<lparr> file_to_module := (file_to_module s)(fp \<mapsto> module_name),
                  module_to_file := (module_to_file s)(module_name \<mapsto> fp) \<rparr>;
          s2 = (case content of
                  None \<Rightarrow> s1
                | Some c \<Rightarrow> if c = [] then s1
                            else s1\<lparr> file_contents := (file_contents s1)(fp \<mapsto> c) \<rparr>);
          s3 = s2\<lparr> graph := graph_ensure fp (graph s2),
                   reverse_graph := map_ensure fp (reverse_graph s2) \<rparr>;
          pending = map_get (pending_module_dependents s3) module_name;
          s4 = s3\<lparr> pending_module_dependents := (pending_module_dependents s3)(module_name := None) \<rparr>
      in fold (backfill fp) pending s4)"

text \<open>\<^verbatim>\<open>add_dependency(from_file, to_module)\<close>.\<close>

definition add_dependency ::
  "(string \<Rightarrow> path) \<Rightarrow> string \<Rightarrow> string \<Rightarrow> dependency_graph \<Rightarrow> dependency_graph"
where
  "add_dependency resolve from_file to_module s =
     (let from_file_str = resolve from_file;
          s1 = s\<lparr> graph := graph_ensure from_file_str (graph s) \<rparr>
      in case module_to_file s1 to_module of
           Some to_file \<Rightarrow>
             s1\<lparr> graph := graph_add to_file from_file_str (graph_ensure to_file (graph s1)),
                 reverse_graph :=
                   map_add_elem from_file_str to_file (map_ensure from_file_str (reverse_graph s1)) \<rparr>
         | None \<Rightarrow>
             s1\<lparr> pending_module_dependents :=
                   map_add_elem to_module from_file_str (pending_module_dependents s1) \<rparr>)"

text \<open>
  The two direct queries. Each returns its result together with the state it leaves,
  which is the state it was given: \<^verbatim>\<open>.get\<close> does not create the key it misses.
\<close>

definition get_dependencies ::
  "(string \<Rightarrow> path) \<Rightarrow> string \<Rightarrow> dependency_graph \<Rightarrow> path list \<times> dependency_graph"
where
  "get_dependencies resolve file_path s = (map_get (reverse_graph s) (resolve file_path), s)"

definition get_dependents ::
  "(string \<Rightarrow> path) \<Rightarrow> string \<Rightarrow> dependency_graph \<Rightarrow> path list \<times> dependency_graph"
where
  "get_dependents resolve file_path s = (graph_get (graph s) (resolve file_path), s)"

text \<open>A sequence of mutating calls.\<close>

datatype call = AddFile string string "string option" | AddDependency string string

fun apply_call :: "(string \<Rightarrow> path) \<Rightarrow> call \<Rightarrow> dependency_graph \<Rightarrow> dependency_graph" where
  "apply_call resolve (AddFile p m c) s = add_file resolve p m c s"
| "apply_call resolve (AddDependency p m) s = add_dependency resolve p m s"

definition run :: "(string \<Rightarrow> path) \<Rightarrow> call list \<Rightarrow> dependency_graph \<Rightarrow> dependency_graph" where
  "run resolve cs s = fold (apply_call resolve) cs s"

fun call_path :: "call \<Rightarrow> string" where
  "call_path (AddFile p m c) = p"
| "call_path (AddDependency p m) = p"


text \<open>
  The registrations a call sequence makes, in call order, and what it means for them to
  pair paths and module names one to one.
\<close>

fun registrations :: "(string \<Rightarrow> path) \<Rightarrow> call list \<Rightarrow> (path \<times> string) list" where
  "registrations r [] = []"
| "registrations r (AddFile p m c # cs) = (r p, m) # registrations r cs"
| "registrations r (AddDependency p m # cs) = registrations r cs"

definition one_to_one :: "(path \<times> string) list \<Rightarrow> bool" where
  "one_to_one regs = (\<forall>(p, m) \<in> set regs. \<forall>(p', m') \<in> set regs. (p = p') = (m = m'))"

text \<open>The forward and the reverse adjacency record the same edges.\<close>

definition mirrored :: "dependency_graph \<Rightarrow> bool" where
  "mirrored s = (\<forall>a b. b \<in> set (graph_get (graph s) a) \<longleftrightarrow> a \<in> set (map_get (reverse_graph s) b))"

text \<open>Every path the state mentions is one of the paths \<open>T\<close>.\<close>

definition known :: "path set \<Rightarrow> dependency_graph \<Rightarrow> bool" where
  "known T s = (fst ` set (graph s) \<subseteq> T \<and> dom (reverse_graph s) \<subseteq> T \<and>
     ran (module_to_file s) \<subseteq> T \<and> (\<forall>m. set (map_get (pending_module_dependents s) m) \<subseteq> T))"


section \<open>Properties of the mutating calls and the direct queries\<close>

subsection \<open>Dictionary and set primitives\<close>

lemma set_set_add [simp]: "set (set_add x xs) = insert x (set xs)"
  by (auto simp: set_add_def)

lemma distinct_set_add [simp]: "distinct (set_add x xs) = distinct xs"
  by (simp add: set_add_def)

lemma graph_get_ensure [simp]: "graph_get (graph_ensure k g) a = graph_get g a"
proof (cases "k \<in> fst ` set g")
  case True
  then show ?thesis by (simp add: graph_ensure_def)
next
  case False
  then have "map_of g k = None" by (simp add: map_of_eq_None_iff)
  then show ?thesis using False
    by (simp add: graph_get_def graph_ensure_def map_add_def split: option.splits)
qed

lemma keys_graph_ensure [simp]: "fst ` set (graph_ensure k g) = insert k (fst ` set g)"
  by (auto simp: graph_ensure_def)

lemma graph_get_add [simp]:
  "graph_get (graph_add k x g) a = (if a = k then set_add x (graph_get g k) else graph_get g a)"
  by (simp add: graph_get_def graph_add_def update_conv')

lemma keys_graph_add [simp]: "fst ` set (graph_add k x g) = insert k (fst ` set g)"
  by (simp add: graph_add_def dom_update)

lemma map_get_ensure [simp]: "map_get (map_ensure k m) a = map_get m a"
  by (auto simp: map_get_def map_ensure_def split: option.splits)

lemma dom_map_ensure [simp]: "dom (map_ensure k m) = insert k (dom m)"
  by (auto simp: map_ensure_def)

lemma map_get_add_elem [simp]:
  "map_get (map_add_elem k x m) a = (if a = k then set_add x (map_get m k) else map_get m a)"
  by (simp add: map_get_def map_add_elem_def)

lemma dom_map_add_elem [simp]: "dom (map_add_elem k x m) = insert k (dom m)"
  by (simp add: map_add_elem_def)

subsection \<open>What the back-fill loop leaves alone\<close>

lemma fold_backfill_frame:
  "file_to_module (fold (backfill fp) cs s) = file_to_module s"
  "module_to_file (fold (backfill fp) cs s) = module_to_file s"
  "file_contents (fold (backfill fp) cs s) = file_contents s"
  "pending_module_dependents (fold (backfill fp) cs s) = pending_module_dependents s"
  by (induction cs arbitrary: s; simp add: backfill_def)+

lemma file_contents_add_file:
  "file_contents (add_file r p m c s) =
     (case c of None \<Rightarrow> file_contents s
      | Some t \<Rightarrow> if t = [] then file_contents s else (file_contents s)(r p \<mapsto> t))"
  by (simp add: add_file_def Let_def fold_backfill_frame split: option.splits)


text \<open>
  C2, as amended. After \<^verbatim>\<open>add_file(p, m1, c1)\<close> with non-empty \<open>c1\<close>, a second
  \<^verbatim>\<open>add_file(p, m2, c2)\<close> replaces the cached content of \<open>p\<close> by \<open>c2\<close> whenever \<open>c2\<close>
  is given and non-empty; the cache keeps \<open>c1\<close> only when the second call gives no
  content or the empty string.
\<close>

theorem add_file_content_last_nonempty_wins:
  "c1 \<noteq> [] \<Longrightarrow>
   file_contents (add_file r p m2 c2 (add_file r p m1 (Some c1) s)) (r p) =
     Some (case c2 of None \<Rightarrow> c1 | Some c \<Rightarrow> if c = [] then c1 else c)"
  by (simp add: file_contents_add_file split: option.splits)

theorem add_file_content_last_nonempty_wins_witness:
  "''old'' \<noteq> [] \<and>
   file_contents (add_file (\<lambda>p. p) ''a.lua'' ''m2'' (Some ''new'')
       (add_file (\<lambda>p. p) ''a.lua'' ''m1'' (Some ''old'') init_graph)) ''a.lua'' = Some ''new''"
  using add_file_content_last_nonempty_wins
    [of "''old''" "\<lambda>p. p" "''a.lua''" "''m2''" "Some ''new''" "''m1''" init_graph]
  by simp

text \<open>
  C2, as stated, fails: the content cached by the first registration of \<^verbatim>\<open>a.lua\<close> is
  gone after the second one.
\<close>

theorem add_file_content_overwritten_counterexample:
  "file_contents (add_file (\<lambda>p. p) ''a.lua'' ''m2'' (Some ''new'')
       (add_file (\<lambda>p. p) ''a.lua'' ''m1'' (Some ''old'') init_graph)) ''a.lua'' \<noteq> Some ''old''"
  by (simp add: file_contents_add_file)

subsection \<open>The forward and reverse maps mirror each other\<close>

lemma mirrored_backfill: "mirrored s \<Longrightarrow> mirrored (backfill fp c s)"
  by (auto simp: mirrored_def backfill_def)

lemma mirrored_fold_backfill: "mirrored s \<Longrightarrow> mirrored (fold (backfill fp) cs s)"
  by (induction cs arbitrary: s) (simp_all add: mirrored_backfill)

lemma mirrored_add_file: "mirrored s \<Longrightarrow> mirrored (add_file r p m c s)"
  unfolding add_file_def Let_def
  by (rule mirrored_fold_backfill) (auto simp: mirrored_def split: option.splits)

lemma mirrored_add_dependency: "mirrored s \<Longrightarrow> mirrored (add_dependency r p m s)"
  by (auto simp: add_dependency_def Let_def mirrored_def split: option.splits)

lemma mirrored_init: "mirrored init_graph"
  by (simp add: mirrored_def init_graph_def graph_get_def map_get_def)

lemma mirrored_run: "mirrored s \<Longrightarrow> mirrored (run r cs s)"
  unfolding run_def
proof (induction cs arbitrary: s)
  case Nil then show ?case by simp
next
  case (Cons c cs)
  then show ?case by (cases c) (simp_all add: mirrored_add_file mirrored_add_dependency)
qed

text \<open>
  C7. After every sequence of \<^verbatim>\<open>add_file\<close> and \<^verbatim>\<open>add_dependency\<close> calls on a new graph,
  \<open>b\<close> is in the forward set of \<open>a\<close> exactly when \<open>a\<close> is in the reverse set of \<open>b\<close>
  (a missing key counting as the empty set).
\<close>

theorem forward_reverse_mirror:
  "b \<in> set (graph_get (graph (run r cs init_graph)) a) \<longleftrightarrow>
   a \<in> set (map_get (reverse_graph (run r cs init_graph)) b)"
  using mirrored_run[OF mirrored_init, of r cs] by (simp add: mirrored_def)

subsection \<open>Pending dependencies\<close>

lemma reverse_fold_backfill_mono:
  "fp \<in> set (map_get (reverse_graph s) c) \<Longrightarrow>
   fp \<in> set (map_get (reverse_graph (fold (backfill fp) cs s)) c)"
proof (induction cs arbitrary: s)
  case Nil then show ?case by simp
next
  case (Cons x xs)
  have "fp \<in> set (map_get (reverse_graph (backfill fp x s)) c)"
    using Cons.prems by (simp add: backfill_def)
  then show ?case by (simp add: Cons.IH)
qed

lemma reverse_fold_backfill:
  "c \<in> set cs \<Longrightarrow> fp \<in> set (map_get (reverse_graph (fold (backfill fp) cs s)) c)"
proof (induction cs arbitrary: s)
  case Nil then show ?case by simp
next
  case (Cons x xs)
  show ?case
  proof (cases "c = x")
    case True
    have "fp \<in> set (map_get (reverse_graph (backfill fp x s)) c)"
      using True by (simp add: backfill_def)
    then show ?thesis
      by (simp add: reverse_fold_backfill_mono)
  next
    case False
    with Cons show ?thesis by simp
  qed
qed

lemma pending_add_dependency:
  "module_to_file s m = None \<Longrightarrow>
   r c \<in> set (map_get (pending_module_dependents (add_dependency r c m s)) m)"
  by (simp add: add_dependency_def Let_def)

text \<open>
  C6. In any state where module \<open>m\<close> is not registered, \<^verbatim>\<open>add_dependency(C, m)\<close> followed
  by \<^verbatim>\<open>add_file(P, m)\<close> makes \<^verbatim>\<open>get_dependencies(C)\<close> contain the path of \<open>P\<close>, and the
  pending map has no entry for \<open>m\<close> left.
\<close>

theorem pending_dependency_resolved:
  assumes "module_to_file s m = None"
  shows "r P \<in> set (fst (get_dependencies r C (add_file r P m c (add_dependency r C m s)))) \<and>
         pending_module_dependents (add_file r P m c (add_dependency r C m s)) m = None"
proof -
  let ?s1 = "add_dependency r C m s"
  have "r C \<in> set (map_get (pending_module_dependents ?s1) m)"
    using assms by (rule pending_add_dependency)
  then have "r P \<in> set (map_get (reverse_graph (add_file r P m c ?s1)) (r C))"
    by (simp add: add_file_def Let_def reverse_fold_backfill split: option.splits)
  moreover have "pending_module_dependents (add_file r P m c ?s1) m = None"
    by (simp add: add_file_def Let_def fold_backfill_frame split: option.splits)
  ultimately show ?thesis by (simp add: get_dependencies_def)
qed

theorem pending_dependency_resolved_witness:
  "module_to_file init_graph ''m'' = None \<and>
   ''m.lua'' \<in> set (fst (get_dependencies (\<lambda>p. p) ''c.lua''
       (add_file (\<lambda>p. p) ''m.lua'' ''m'' None
          (add_dependency (\<lambda>p. p) ''c.lua'' ''m'' init_graph)))) \<and>
   pending_module_dependents
       (add_file (\<lambda>p. p) ''m.lua'' ''m'' None
          (add_dependency (\<lambda>p. p) ''c.lua'' ''m'' init_graph)) ''m'' = None"
proof -
  have h: "module_to_file init_graph ''m'' = None" by (simp add: init_graph_def)
  show ?thesis
    using h pending_dependency_resolved[OF h, of "\<lambda>p. p" "''m.lua''" "''c.lua''" None] by simp
qed

subsection \<open>Paths the graph has never seen\<close>

lemma known_mono: "known T s \<Longrightarrow> T \<subseteq> T' \<Longrightarrow> known T' s"
  unfolding known_def by blast

lemma known_fold_backfill:
  "known T s \<Longrightarrow> fp \<in> T \<Longrightarrow> set cs \<subseteq> T \<Longrightarrow> known T (fold (backfill fp) cs s)"
proof (induction cs arbitrary: s)
  case Nil then show ?case by simp
next
  case (Cons x xs)
  have "known T (backfill fp x s)"
    using Cons.prems by (auto simp: known_def backfill_def)
  with Cons show ?case by simp
qed

lemma known_add_file: "known T s \<Longrightarrow> r p \<in> T \<Longrightarrow> known T (add_file r p m c s)"
  unfolding add_file_def Let_def
  apply (rule known_fold_backfill)
    apply (auto simp: known_def map_get_def ran_def split: option.splits if_splits)
  done

lemma known_add_dependency: "known T s \<Longrightarrow> r p \<in> T \<Longrightarrow> known T (add_dependency r p m s)"
  by (auto simp: add_dependency_def Let_def known_def ran_def split: option.splits if_splits)

lemma known_run: "known T s \<Longrightarrow> r ` call_path ` set cs \<subseteq> T \<Longrightarrow> known T (run r cs s)"
  unfolding run_def
proof (induction cs arbitrary: s)
  case Nil then show ?case by simp
next
  case (Cons c cs)
  then show ?case by (cases c) (simp_all add: known_add_file known_add_dependency)
qed

lemma known_init: "known T init_graph"
  by (simp add: known_def init_graph_def map_get_def)

text \<open>
  C10. For a path \<open>p\<close> whose canonical form was never given to \<^verbatim>\<open>add_file\<close> or
  \<^verbatim>\<open>add_dependency\<close>, both direct queries return the empty set, leave the state as it
  was, and \<open>p\<close> is a key of neither adjacency map.
\<close>

theorem unknown_path_queries_empty:
  assumes "resolve p \<notin> resolve ` call_path ` set cs"
  shows "get_dependencies resolve p (run resolve cs init_graph) = ([], run resolve cs init_graph) \<and>
         get_dependents resolve p (run resolve cs init_graph) = ([], run resolve cs init_graph) \<and>
         resolve p \<notin> fst ` set (graph (run resolve cs init_graph)) \<and>
         resolve p \<notin> dom (reverse_graph (run resolve cs init_graph))"
proof -
  let ?s = "run resolve cs init_graph"
  have "known (resolve ` call_path ` set cs) ?s"
    by (rule known_run[OF known_init]) simp
  then have g: "resolve p \<notin> fst ` set (graph ?s)" and r: "resolve p \<notin> dom (reverse_graph ?s)"
    using assms unfolding known_def by blast+
  from g have "map_of (graph ?s) (resolve p) = None" by (simp add: map_of_eq_None_iff)
  then have "graph_get (graph ?s) (resolve p) = []" by (simp add: graph_get_def)
  moreover from r have "map_get (reverse_graph ?s) (resolve p) = []" by (auto simp: map_get_def domIff)
  ultimately show ?thesis using g r by (simp add: get_dependencies_def get_dependents_def)
qed

theorem unknown_path_queries_empty_witness:
  "(\<lambda>p. p) ''z.lua'' \<notin> (\<lambda>p. p) ` call_path ` set [AddFile ''a.lua'' ''a'' None, AddDependency ''a.lua'' ''b''] \<and>
   get_dependencies (\<lambda>p. p) ''z.lua''
       (run (\<lambda>p. p) [AddFile ''a.lua'' ''a'' None, AddDependency ''a.lua'' ''b''] init_graph) =
     ([], run (\<lambda>p. p) [AddFile ''a.lua'' ''a'' None, AddDependency ''a.lua'' ''b''] init_graph) \<and>
   get_dependents (\<lambda>p. p) ''z.lua''
       (run (\<lambda>p. p) [AddFile ''a.lua'' ''a'' None, AddDependency ''a.lua'' ''b''] init_graph) =
     ([], run (\<lambda>p. p) [AddFile ''a.lua'' ''a'' None, AddDependency ''a.lua'' ''b''] init_graph)"
proof -
  have h: "(\<lambda>p. p) ''z.lua'' \<notin>
      (\<lambda>p. p) ` call_path ` set [AddFile ''a.lua'' ''a'' None, AddDependency ''a.lua'' ''b'']"
    by simp
  show ?thesis
    using h unknown_path_queries_empty[OF h] by blast
qed

subsection \<open>The module maps\<close>

lemma maps_add_file:
  "file_to_module (add_file r p m c s) = (file_to_module s)(r p \<mapsto> m)"
  "module_to_file (add_file r p m c s) = (module_to_file s)(m \<mapsto> r p)"
  by (simp_all add: add_file_def Let_def fold_backfill_frame split: option.splits)

lemma maps_add_dependency:
  "file_to_module (add_dependency r p m s) = file_to_module s"
  "module_to_file (add_dependency r p m s) = module_to_file s"
  by (simp_all add: add_dependency_def Let_def split: option.splits)

lemma map_add_rev_Cons: "f ++ map_of (rev ((k, v) # xs)) = f(k \<mapsto> v) ++ map_of (rev xs)"
  by (rule ext) (simp add: map_add_def split: option.splits)

lemma run_Cons: "run r (c # cs) s = run r cs (apply_call r c s)"
  by (simp add: run_def)

lemma file_to_module_run:
  "file_to_module (run r cs s) = file_to_module s ++ map_of (rev (registrations r cs))"
proof (induction cs arbitrary: s)
  case Nil then show ?case by (simp add: run_def)
next
  case (Cons c cs)
  show ?case
  proof (cases c)
    case (AddFile p m t)
    have "file_to_module (run r (c # cs) s) =
            file_to_module (add_file r p m t s) ++ map_of (rev (registrations r cs))"
      unfolding run_Cons Cons.IH AddFile by simp
    also have "\<dots> = (file_to_module s)(r p \<mapsto> m) ++ map_of (rev (registrations r cs))"
      by (simp only: maps_add_file)
    also have "\<dots> = file_to_module s ++ map_of (rev ((r p, m) # registrations r cs))"
      by (rule map_add_rev_Cons[symmetric])
    finally show ?thesis by (simp only: AddFile registrations.simps)
  next
    case (AddDependency p m)
    then show ?thesis by (simp add: run_Cons Cons.IH maps_add_dependency)
  qed
qed

lemma module_to_file_run:
  "module_to_file (run r cs s) =
     module_to_file s ++ map_of (rev (map prod.swap (registrations r cs)))"
proof (induction cs arbitrary: s)
  case Nil then show ?case by (simp add: run_def)
next
  case (Cons c cs)
  show ?case
  proof (cases c)
    case (AddFile p m t)
    have "module_to_file (run r (c # cs) s) =
            module_to_file (add_file r p m t s) ++ map_of (rev (map prod.swap (registrations r cs)))"
      unfolding run_Cons Cons.IH AddFile by simp
    also have "\<dots> = (module_to_file s)(m \<mapsto> r p) ++ map_of (rev (map prod.swap (registrations r cs)))"
      by (simp only: maps_add_file)
    also have "\<dots> = module_to_file s ++ map_of (rev ((m, r p) # map prod.swap (registrations r cs)))"
      by (rule map_add_rev_Cons[symmetric])
    finally show ?thesis by (simp only: AddFile registrations.simps list.map swap_simp)
  next
    case (AddDependency p m)
    then show ?thesis by (simp add: run_Cons Cons.IH maps_add_dependency)
  qed
qed

lemma map_of_rev_mem: "map_of (rev xs) k = Some v \<Longrightarrow> (k, v) \<in> set xs"
  by (drule map_of_SomeD) simp

lemma map_of_rev_dom: "(k, v) \<in> set xs \<Longrightarrow> \<exists>v'. map_of (rev xs) k = Some v'"
  by (metis domD domI dom_map_of_conv_image_fst image_eqI fst_conv set_rev)

text \<open>
  C3, as amended. After every sequence of calls on a new graph, each of the two maps holds
  the last registration of each key: \<^verbatim>\<open>file_to_module\<close> maps a path to the module of the
  last \<^verbatim>\<open>add_file\<close> for that path, \<^verbatim>\<open>module_to_file\<close> maps a module to the path of the last
  \<^verbatim>\<open>add_file\<close> for that module. The maps are inverse to each other when the registrations
  pair paths and modules one to one; entries of an earlier registration are not removed.
\<close>

theorem module_maps_last_registration_wins:
  "file_to_module (run r cs init_graph) = map_of (rev (registrations r cs)) \<and>
   module_to_file (run r cs init_graph) = map_of (rev (map prod.swap (registrations r cs))) \<and>
   (one_to_one (registrations r cs) \<longrightarrow>
      (\<forall>p m. file_to_module (run r cs init_graph) p = Some m \<longleftrightarrow>
             module_to_file (run r cs init_graph) m = Some p))"
proof -
  let ?regs = "registrations r cs"
  have f: "file_to_module (run r cs init_graph) = map_of (rev ?regs)"
    by (simp add: file_to_module_run init_graph_def)
  have m: "module_to_file (run r cs init_graph) = map_of (rev (map prod.swap ?regs))"
    by (simp add: module_to_file_run init_graph_def)
  have inv: "map_of (rev ?regs) p = Some m \<longleftrightarrow> map_of (rev (map prod.swap ?regs)) m = Some p"
    if o: "one_to_one ?regs" for p m
  proof
    assume "map_of (rev ?regs) p = Some m"
    then have pm: "(p, m) \<in> set ?regs" by (rule map_of_rev_mem)
    then have "(m, p) \<in> set (map prod.swap ?regs)" by force
    then obtain p' where p': "map_of (rev (map prod.swap ?regs)) m = Some p'"
      using map_of_rev_dom by fastforce
    then have "(m, p') \<in> set (map prod.swap ?regs)" by (rule map_of_rev_mem)
    then have "(p', m) \<in> set ?regs" by auto
    with pm o have "p' = p" unfolding one_to_one_def by blast
    with p' show "map_of (rev (map prod.swap ?regs)) m = Some p" by simp
  next
    assume "map_of (rev (map prod.swap ?regs)) m = Some p"
    then have "(m, p) \<in> set (map prod.swap ?regs)" by (rule map_of_rev_mem)
    then have pm: "(p, m) \<in> set ?regs" by auto
    then obtain m' where m': "map_of (rev ?regs) p = Some m'"
      using map_of_rev_dom by fastforce
    then have "(p, m') \<in> set ?regs" by (rule map_of_rev_mem)
    with pm o have "m' = m" unfolding one_to_one_def by blast
    with m' show "map_of (rev ?regs) p = Some m" by simp
  qed
  show ?thesis using f m inv by simp
qed

theorem module_maps_last_registration_wins_witness:
  "one_to_one (registrations (\<lambda>p. p) [AddFile ''a.lua'' ''a'' None, AddFile ''b.lua'' ''b'' None]) \<and>
   (\<forall>p m. file_to_module
            (run (\<lambda>p. p) [AddFile ''a.lua'' ''a'' None, AddFile ''b.lua'' ''b'' None] init_graph) p = Some m \<longleftrightarrow>
          module_to_file
            (run (\<lambda>p. p) [AddFile ''a.lua'' ''a'' None, AddFile ''b.lua'' ''b'' None] init_graph) m = Some p)"
proof -
  have h: "one_to_one (registrations (\<lambda>p. p) [AddFile ''a.lua'' ''a'' None, AddFile ''b.lua'' ''b'' None])"
    by (simp add: one_to_one_def)
  show ?thesis
    using h module_maps_last_registration_wins
      [of "\<lambda>p. p" "[AddFile ''a.lua'' ''a'' None, AddFile ''b.lua'' ''b'' None]"]
    by blast
qed

text \<open>
  C3, as stated, fails: after registering module \<^verbatim>\<open>m\<close> first for \<^verbatim>\<open>a.lua\<close> and then for
  \<^verbatim>\<open>b.lua\<close>, the path map still sends \<^verbatim>\<open>a.lua\<close> to \<^verbatim>\<open>m\<close> while the module map sends
  \<^verbatim>\<open>m\<close> to \<^verbatim>\<open>b.lua\<close>.
\<close>

theorem module_maps_not_inverse_counterexample:
  "file_to_module (run (\<lambda>p. p) [AddFile ''a.lua'' ''m'' None, AddFile ''b.lua'' ''m'' None] init_graph)
       ''a.lua'' = Some ''m'' \<and>
   module_to_file (run (\<lambda>p. p) [AddFile ''a.lua'' ''m'' None, AddFile ''b.lua'' ''m'' None] init_graph)
       ''m'' \<noteq> Some ''a.lua''"
  by (simp add: run_def maps_add_file)

section \<open>Topological sort\<close>

text \<open>
  \<^verbatim>\<open>topological_sort\<close> is Kahn's algorithm. \<^verbatim>\<open>in_degree\<close> is a \<^verbatim>\<open>defaultdict(int)\<close>: a
  total function with value 0 where nothing was stored. \<open>relax\<close> is the inner loop
  \<^verbatim>\<open>for dep in self.graph.get(node, set())\<close>, \<open>kahn_loop\<close> the loop \<^verbatim>\<open>while queue\<close>.
  The loop ends on every input: each round takes one node from the queue, and a node is
  appended only when its count falls from 1 to 0, which happens once.
\<close>

definition in_degree_init :: "adjacency \<Rightarrow> (path \<Rightarrow> int)" where
  "in_degree_init g =
     fold (\<lambda>(node, deps) d. fold (\<lambda>dep d. d(dep := d dep + 1)) deps d) g
       (fold (\<lambda>node d. d(node := 0)) (map fst g) (\<lambda>_. 0))"

fun relax :: "path list \<Rightarrow> (path \<Rightarrow> int) \<times> path list \<Rightarrow> (path \<Rightarrow> int) \<times> path list" where
  "relax [] (d, q) = (d, q)"
| "relax (dep # deps) (d, q) =
     (let d' = d(dep := d dep - 1)
      in relax deps (d', if d' dep = 0 then q @ [dep] else q))"

definition targets :: "adjacency \<Rightarrow> path set" where
  "targets g = (\<Union>(node, deps) \<in> set g. set deps)"

lemma finite_targets [simp]: "finite (targets g)"
  by (auto simp: targets_def)

lemma graph_get_targets: "set (graph_get g node) \<subseteq> targets g"
proof (cases "map_of g node")
  case None
  then show ?thesis by (simp add: graph_get_def)
next
  case (Some ds)
  then have "(node, ds) \<in> set g" by (rule map_of_SomeD)
  then have "set ds \<subseteq> targets g" unfolding targets_def by blast
  with Some show ?thesis by (simp add: graph_get_def)
qed

definition waiting :: "path set \<Rightarrow> (path \<Rightarrow> int) \<Rightarrow> nat" where
  "waiting T d = card {v \<in> T. 1 \<le> d v}"

lemma relax_measure:
  "finite T \<Longrightarrow> set deps \<subseteq> T \<Longrightarrow> relax deps (d, q) = (d', q') \<Longrightarrow>
   length q' + waiting T d' \<le> length q + waiting T d"
proof (induction deps arbitrary: d q)
  case Nil
  then show ?case by simp
next
  case (Cons dep deps)
  let ?d1 = "d(dep := d dep - 1)"
  let ?q1 = "if ?d1 dep = 0 then q @ [dep] else q"
  have rec: "relax deps (?d1, ?q1) = (d', q')"
    using Cons.prems(3) by (simp add: Let_def)
  have "set deps \<subseteq> T" using Cons.prems(2) by simp
  then have ih: "length q' + waiting T d' \<le> length ?q1 + waiting T ?d1"
    by (rule Cons.IH[OF Cons.prems(1) _ rec])
  define A where "A = {v \<in> T. 1 \<le> d v}"
  define B where "B = {v \<in> T. 1 \<le> ?d1 v}"
  have wa: "waiting T d = card A" and wb: "waiting T ?d1 = card B"
    by (simp_all only: waiting_def A_def B_def)
  have fin: "finite A" using Cons.prems(1) by (simp add: A_def)
  have sub: "B \<subseteq> A" by (auto simp: A_def B_def)
  have step: "length ?q1 + waiting T ?d1 \<le> length q + waiting T d"
  proof (cases "?d1 dep = 0")
    case True
    then have q1: "?q1 = q @ [dep]" by simp
    from True have "d dep = 1" by simp
    moreover have "dep \<in> T" using Cons.prems(2) by simp
    ultimately have "dep \<in> A" "dep \<notin> B" by (auto simp: A_def B_def)
    with sub have "B \<subset> A" by blast
    from psubset_card_mono[OF fin this] show ?thesis unfolding q1 wa wb by simp
  next
    case False
    then have q1: "?q1 = q" by simp
    from card_mono[OF fin sub] show ?thesis unfolding q1 wa wb by simp
  qed
  from ih step show ?case by linarith
qed

lemma relax_graph_measure:
  "relax (graph_get g node) (d, q) = (d', q') \<Longrightarrow>
   length q' + waiting (targets g) d' \<le> length q + waiting (targets g) d"
  by (rule relax_measure[OF finite_targets graph_get_targets])

function kahn_loop :: "adjacency \<Rightarrow> (path \<Rightarrow> int) \<Rightarrow> path list \<Rightarrow> path list \<Rightarrow> path list" where
  "kahn_loop g d [] result = result"
| "kahn_loop g d (node # queue) result =
     (case relax (graph_get g node) (d, queue) of
        (d', queue') \<Rightarrow> kahn_loop g d' queue' (result @ [node]))"
  by pat_completeness auto
termination
  apply (relation "measure (\<lambda>(g, d, q, res). length q + waiting (targets g) d)")
   apply simp
  subgoal for g d node queue result x y
    using relax_graph_measure[of g node d queue x y] by simp
  done

definition topological_sort :: "adjacency \<Rightarrow> path list" where
  "topological_sort g =
     (let in_degree = in_degree_init g
      in kahn_loop g in_degree [node \<leftarrow> map fst g. in_degree node = 0] [])"



text \<open>
  The edges of the forward adjacency, a well-formed adjacency (keys once, each set
  duplicate-free and within the keys), the count of not yet emitted predecessors, and
  the invariant of the \<^verbatim>\<open>while\<close> loop.
\<close>

definition edges :: "adjacency \<Rightarrow> (path \<times> path) set" where
  "edges g = {(a, b). b \<in> set (graph_get g a)}"

definition graph_ok :: "adjacency \<Rightarrow> bool" where
  "graph_ok g = (distinct (map fst g) \<and>
     (\<forall>(node, deps) \<in> set g. distinct deps \<and> set deps \<subseteq> fst ` set g))"

definition remaining :: "adjacency \<Rightarrow> path set \<Rightarrow> path \<Rightarrow> int" where
  "remaining g R v = (\<Sum>(node, deps) \<leftarrow> g. if node \<in> R then 0 else int (count_list deps v))"

definition ordered :: "adjacency \<Rightarrow> path list \<Rightarrow> bool" where
  "ordered g res = (\<forall>i < length res. \<forall>u. (u, res ! i) \<in> edges g \<longrightarrow> (\<exists>j < i. res ! j = u))"

definition kahn_inv :: "adjacency \<Rightarrow> (path \<Rightarrow> int) \<Rightarrow> path list \<Rightarrow> path list \<Rightarrow> bool" where
  "kahn_inv g d q res =
     (distinct (res @ q) \<and> set (res @ q) \<subseteq> fst ` set g \<and>
      (\<forall>v. d v = remaining g (set res) v) \<and>
      (\<forall>v \<in> fst ` set g. v \<in> set (res @ q) \<longleftrightarrow> d v = 0) \<and>
      ordered g res)"

subsection \<open>Edges and keys\<close>

lemma graph_get_Cons: "graph_get ((n, ds) # g) a = (if a = n then ds else graph_get g a)"
  by (simp add: graph_get_def)

lemma graph_get_not_key: "a \<notin> fst ` set g \<Longrightarrow> graph_get g a = []"
  by (simp add: graph_get_def map_of_eq_None_iff[THEN iffD2])

lemma graph_get_mem: "distinct (map fst g) \<Longrightarrow> (a, ds) \<in> set g \<Longrightarrow> graph_get g a = ds"
  by (simp add: graph_get_def)

lemma graph_get_key: "a \<in> fst ` set g \<Longrightarrow> (a, graph_get g a) \<in> set g"
proof -
  assume "a \<in> fst ` set g"
  then have "map_of g a \<noteq> None" by (simp add: map_of_eq_None_iff)
  then obtain ds where ds: "map_of g a = Some ds" by blast
  then have "(a, ds) \<in> set g" by (rule map_of_SomeD)
  with ds show ?thesis by (simp add: graph_get_def)
qed

lemma edges_key: "(a, b) \<in> edges g \<Longrightarrow> a \<in> fst ` set g"
proof (rule ccontr)
  assume "(a, b) \<in> edges g" and "a \<notin> fst ` set g"
  then show False by (simp add: edges_def graph_get_not_key)
qed

lemma graph_ok_get:
  assumes "graph_ok g"
  shows "distinct (graph_get g a)" and "set (graph_get g a) \<subseteq> fst ` set g"
proof -
  show "distinct (graph_get g a)"
  proof (cases "a \<in> fst ` set g")
    case True
    from graph_get_key[OF this] assms show ?thesis unfolding graph_ok_def by blast
  next
    case False then show ?thesis by (simp add: graph_get_not_key)
  qed
  show "set (graph_get g a) \<subseteq> fst ` set g"
  proof (cases "a \<in> fst ` set g")
    case True
    from graph_get_key[OF this] assms show ?thesis unfolding graph_ok_def by blast
  next
    case False then show ?thesis by (simp add: graph_get_not_key)
  qed
qed

lemma edges_target: "graph_ok g \<Longrightarrow> (a, b) \<in> edges g \<Longrightarrow> b \<in> fst ` set g"
  using graph_ok_get(2)[of g a] by (auto simp: edges_def)

lemma finite_edges: "finite (edges g)"
proof -
  have "edges g \<subseteq> fst ` set g \<times> targets g"
    using graph_get_targets edges_key by (auto simp: edges_def)
  then show ?thesis by (rule finite_subset) simp
qed

subsection \<open>In-degrees\<close>

lemma count_list_distinct: "distinct xs \<Longrightarrow> count_list xs v = (if v \<in> set xs then 1 else 0)"
  by (induction xs) auto

lemma fold_incr: "fold (\<lambda>dep d. d(dep := d dep + 1)) deps d v = d v + int (count_list deps v)"
  by (induction deps arbitrary: d) auto

lemma fold_zero: "fold (\<lambda>node d. d(node := 0)) ks (\<lambda>_. 0) = (\<lambda>_. 0::int)"
  by (induction ks) (simp_all add: fun_upd_idem)

lemma fold_graph_incr:
  "fold (\<lambda>(node, deps) d. fold (\<lambda>dep d. d(dep := d dep + 1)) deps d) g d v =
     d v + (\<Sum>(node, deps) \<leftarrow> g. int (count_list deps v))"
  by (induction g arbitrary: d) (auto simp: fold_incr)

lemma in_degree_init_remaining: "in_degree_init g v = remaining g {} v"
  by (simp add: in_degree_init_def fold_zero fold_graph_incr remaining_def)

lemma remaining_nonneg: "0 \<le> remaining g R v"
  unfolding remaining_def by (rule sum_list_nonneg) auto

lemma remaining_not_key: "n \<notin> fst ` set g \<Longrightarrow> remaining g (insert n R) v = remaining g R v"
  unfolding remaining_def by (induction g) auto

lemma remaining_insert:
  "distinct (map fst g) \<Longrightarrow> n \<in> fst ` set g \<Longrightarrow> n \<notin> R \<Longrightarrow>
   remaining g (insert n R) v = remaining g R v - int (count_list (graph_get g n) v)"
proof (induction g)
  case Nil
  then show ?case by simp
next
  case (Cons e g)
  obtain m ds where e: "e = (m, ds)" by (cases e)
  show ?case
  proof (cases "m = n")
    case True
    with Cons.prems e have "n \<notin> fst ` set g" by auto
    then have "remaining g (insert n R) v = remaining g R v" by (rule remaining_not_key)
    then show ?thesis using True e Cons.prems(3) by (simp add: remaining_def graph_get_Cons)
  next
    case False
    with Cons.prems e have "n \<in> fst ` set g" "distinct (map fst g)" by auto
    from Cons.IH[OF this(2) this(1) Cons.prems(3)] False e
    show ?thesis by (simp add: remaining_def graph_get_Cons)
  qed
qed

lemma remaining_zero_iff:
  assumes "distinct (map fst g)"
  shows "remaining g R v = 0 \<longleftrightarrow> (\<forall>u. (u, v) \<in> edges g \<longrightarrow> u \<in> R)"
proof -
  let ?f = "\<lambda>(node, deps). if node \<in> R then 0 else int (count_list deps v)"
  have "remaining g R v = 0 \<longleftrightarrow> (\<forall>x \<in> set (map ?f g). x = 0)"
    unfolding remaining_def by (rule sum_list_nonneg_eq_0_iff) auto
  also have "\<dots> \<longleftrightarrow> (\<forall>n ds. (n, ds) \<in> set g \<longrightarrow> n \<in> R \<or> v \<notin> set ds)"
    by (auto simp: count_list_0_iff split: if_splits; blast)
  finally have sum: "remaining g R v = 0 \<longleftrightarrow>
      (\<forall>n ds. (n, ds) \<in> set g \<longrightarrow> n \<in> R \<or> v \<notin> set ds)" .
  have "u \<in> R" if l: "\<forall>n ds. (n, ds) \<in> set g \<longrightarrow> n \<in> R \<or> v \<notin> set ds"
    and uv: "(u, v) \<in> edges g" for u
  proof -
    from uv have "(u, graph_get g u) \<in> set g" by (intro graph_get_key edges_key)
    with l uv show "u \<in> R" by (auto simp: edges_def)
  qed
  moreover have "n \<in> R \<or> v \<notin> set ds"
    if r: "\<forall>u. (u, v) \<in> edges g \<longrightarrow> u \<in> R" and m: "(n, ds) \<in> set g" for n ds
  proof (cases "v \<in> set ds")
    case True
    with assms m have "(n, v) \<in> edges g" by (simp add: edges_def graph_get_mem)
    with r show ?thesis by blast
  next
    case False then show ?thesis by simp
  qed
  ultimately show ?thesis unfolding sum by blast
qed

subsection \<open>The inner loop on a duplicate-free set\<close>

lemma relax_distinct:
  "distinct deps \<Longrightarrow>
   relax deps (d, q) = (\<lambda>v. d v - (if v \<in> set deps then 1 else 0), q @ filter (\<lambda>v. d v = 1) deps)"
proof (induction deps arbitrary: d q)
  case Nil
  then show ?case by simp
next
  case (Cons dep deps)
  let ?d1 = "d(dep := d dep - 1)"
  from Cons.prems have nd: "dep \<notin> set deps" and dd: "distinct deps" by auto
  have f: "filter (\<lambda>v. ?d1 v = 1) deps = filter (\<lambda>v. d v = 1) deps"
    using nd by (intro filter_cong) auto
  have g: "(\<lambda>v. ?d1 v - (if v \<in> set deps then 1 else 0)) =
           (\<lambda>v. d v - (if v \<in> set (dep # deps) then 1 else 0))"
    using nd by (intro ext) auto
  show ?case
    unfolding relax.simps Let_def Cons.IH[OF dd] f g by auto
qed


lemma kahn_inv_step:
  assumes ok: "graph_ok g" and inv: "kahn_inv g d (node # q) res"
    and rel: "relax (graph_get g node) (d, q) = (d', q')"
  shows "kahn_inv g d' q' (res @ [node])"
proof -
  let ?S = "graph_get g node"
  let ?K = "fst ` set g"
  from ok have dk: "distinct (map fst g)" by (simp add: graph_ok_def)
  have dS: "distinct ?S" and sS: "set ?S \<subseteq> ?K" using graph_ok_get[OF ok] by auto
  from rel have d': "d' = (\<lambda>v. d v - (if v \<in> set ?S then 1 else 0))"
    and q': "q' = q @ filter (\<lambda>v. d v = 1) ?S"
    by (simp_all add: relax_distinct[OF dS])
  from inv have D: "distinct (res @ node # q)" and K: "set (res @ node # q) \<subseteq> ?K"
    and R: "\<And>v. d v = remaining g (set res) v"
    and Z: "\<And>v. v \<in> ?K \<Longrightarrow> v \<in> set (res @ node # q) \<longleftrightarrow> d v = 0"
    and O: "ordered g res"
    unfolding kahn_inv_def by blast+
  from D K have nk: "node \<in> ?K" and nr: "node \<notin> set res" and nq: "node \<notin> set q" by auto
  have pos: "d v \<noteq> 0" if "v \<in> set ?S" for v
  proof
    assume "d v = 0"
    then have "remaining g (set res) v = 0" by (simp add: R)
    moreover have "(node, v) \<in> edges g" using that by (simp add: edges_def)
    ultimately have "node \<in> set res" using remaining_zero_iff[OF dk] by blast
    with nr show False by simp
  qed
  have new: "v \<notin> set (res @ node # q)" if "v \<in> set ?S" for v
  proof -
    from that sS have "v \<in> ?K" by blast
    from Z[OF this] pos[OF that] show ?thesis by simp
  qed
  let ?F = "filter (\<lambda>v. d v = 1) ?S"
  have F: "set ?F \<subseteq> set ?S" by simp
  have shape: "(res @ [node]) @ q' = (res @ node # q) @ ?F" by (simp add: q')
  have "distinct ?F" using dS by simp
  moreover have "set (res @ node # q) \<inter> set ?F = {}" using new F by blast
  ultimately have 1: "distinct ((res @ [node]) @ q')"
    unfolding shape using D by (simp only: distinct_append simp_thms)
  have 2: "set ((res @ [node]) @ q') \<subseteq> ?K"
    unfolding shape using K sS F by (simp only: set_append) blast
  have 3: "d' v = remaining g (set (res @ [node])) v" for v
    using remaining_insert[OF dk nk nr, of v] by (simp add: d' R count_list_distinct[OF dS])
  have 4: "v \<in> set ((res @ [node]) @ q') \<longleftrightarrow> d' v = 0" if "v \<in> ?K" for v
  proof (cases "v \<in> set ?S")
    case True
    have "v \<in> set ((res @ [node]) @ q') \<longleftrightarrow> d v = 1"
      unfolding shape using new[OF True] True by (simp only: set_append Un_iff set_filter) blast
    moreover have "d' v = 0 \<longleftrightarrow> d v = 1" using True by (simp add: d')
    ultimately show ?thesis by simp
  next
    case False
    then have "v \<notin> set ?F" by simp
    then have "v \<in> set ((res @ [node]) @ q') \<longleftrightarrow> v \<in> set (res @ node # q)"
      unfolding shape by (simp only: set_append Un_iff) blast
    moreover have "d' v = d v" using False by (simp add: d')
    ultimately show ?thesis using Z[OF that] by simp
  qed
  have 5: "ordered g (res @ [node])"
    unfolding ordered_def
  proof (intro allI impI)
    fix i u assume i: "i < length (res @ [node])" and e: "(u, (res @ [node]) ! i) \<in> edges g"
    show "\<exists>j<i. (res @ [node]) ! j = u"
    proof (cases "i < length res")
      case True
      with e have "(u, res ! i) \<in> edges g" by (simp add: nth_append)
      with O True obtain j where j: "j < i" "res ! j = u" unfolding ordered_def by blast
      with True have "(res @ [node]) ! j = u" by (simp add: nth_append)
      with j show ?thesis by blast
    next
      case False
      with i have il: "i = length res" by simp
      with e have un: "(u, node) \<in> edges g" by simp
      have "d node = 0" using Z[OF nk] by simp
      then have "remaining g (set res) node = 0" by (simp add: R)
      with un have "u \<in> set res" using remaining_zero_iff[OF dk] by blast
      then obtain j where j: "j < length res" "res ! j = u"
        using in_set_conv_nth[of u res] by blast
      then have "(res @ [node]) ! j = u" by (simp add: nth_append)
      with il j show ?thesis by blast
    qed
  qed
  show ?thesis
    unfolding kahn_inv_def
  proof (intro conjI)
    show "distinct ((res @ [node]) @ q')" by (rule 1)
    show "set ((res @ [node]) @ q') \<subseteq> ?K" by (rule 2)
    show "\<forall>v. d' v = remaining g (set (res @ [node])) v" using 3 by blast
    show "\<forall>v\<in>?K. (v \<in> set ((res @ [node]) @ q')) = (d' v = 0)" using 4 by blast
    show "ordered g (res @ [node])" by (rule 5)
  qed
qed

lemma kahn_loop_inv:
  "graph_ok g \<Longrightarrow> kahn_inv g d q res \<Longrightarrow> \<exists>d'. kahn_inv g d' [] (kahn_loop g d q res)"
proof (induction g d q res rule: kahn_loop.induct)
  case (1 g d result)
  then show ?case by auto
next
  case (2 g d node queue result)
  obtain d' q' where rel: "relax (graph_get g node) (d, queue) = (d', q')"
    by (cases "relax (graph_get g node) (d, queue)")
  have "kahn_inv g d' q' (result @ [node])"
    using kahn_inv_step[OF "2.prems"(1) "2.prems"(2) rel] .
  from "2.IH"[OF rel[symmetric] "2.prems"(1) this] rel
  show ?case by simp
qed

lemma kahn_inv_init:
  assumes "graph_ok g"
  shows "kahn_inv g (in_degree_init g) [node \<leftarrow> map fst g. in_degree_init g node = 0] []"
proof -
  from assms have "distinct (map fst g)" by (simp add: graph_ok_def)
  then show ?thesis
    by (auto simp: kahn_inv_def in_degree_init_remaining ordered_def)
qed

lemma topological_sort_sound:
  assumes "graph_ok g"
  shows "distinct (topological_sort g)"
    and "set (topological_sort g) \<subseteq> fst ` set g"
    and "ordered g (topological_sort g)"
    and "\<And>v. v \<in> fst ` set g \<Longrightarrow>
          v \<in> set (topological_sort g) \<longleftrightarrow> (\<forall>u. (u, v) \<in> edges g \<longrightarrow> u \<in> set (topological_sort g))"
proof -
  from assms have dk: "distinct (map fst g)" by (simp add: graph_ok_def)
  obtain d' where inv: "kahn_inv g d' [] (topological_sort g)"
    using kahn_loop_inv[OF assms kahn_inv_init[OF assms]]
    by (auto simp: topological_sort_def Let_def)
  from inv show "distinct (topological_sort g)" "set (topological_sort g) \<subseteq> fst ` set g"
    "ordered g (topological_sort g)"
    unfolding kahn_inv_def by auto
  fix v assume v: "v \<in> fst ` set g"
  from inv have "\<forall>v. d' v = remaining g (set (topological_sort g)) v"
    and "\<forall>v\<in>fst ` set g. (v \<in> set (topological_sort g @ [])) = (d' v = 0)"
    unfolding kahn_inv_def by blast+
  with v have "v \<in> set (topological_sort g) \<longleftrightarrow> remaining g (set (topological_sort g)) v = 0"
    by auto
  then show "v \<in> set (topological_sort g) \<longleftrightarrow> (\<forall>u. (u, v) \<in> edges g \<longrightarrow> u \<in> set (topological_sort g))"
    by (simp add: remaining_zero_iff[OF dk])
qed


lemma topological_sort_complete:
  assumes ok: "graph_ok g" and ac: "acyclic (edges g)"
  shows "fst ` set g \<subseteq> set (topological_sort g)"
proof (rule ccontr)
  let ?ts = "topological_sort g"
  assume "\<not> fst ` set g \<subseteq> set ?ts"
  then obtain x where x: "x \<in> fst ` set g - set ?ts" by blast
  have "wf (edges g)" using finite_edges ac by (rule finite_acyclic_wf)
  from wfE_min[OF this x] obtain z where z: "z \<in> fst ` set g - set ?ts"
    and m: "\<And>y. (y, z) \<in> edges g \<Longrightarrow> y \<notin> fst ` set g - set ?ts" by blast
  have "\<forall>u. (u, z) \<in> edges g \<longrightarrow> u \<in> set ?ts"
    using m edges_key by blast
  with topological_sort_sound(4)[OF ok, of z] z show False by blast
qed

lemma ordered_before:
  assumes "ordered g ts" "(a, b) \<in> edges g" "b \<in> set ts"
  shows "\<exists>i j. i < j \<and> j < length ts \<and> ts ! i = a \<and> ts ! j = b"
proof -
  from assms(3) obtain j where "j < length ts" "ts ! j = b" by (auto simp: in_set_conv_nth)
  with assms(1,2) show ?thesis unfolding ordered_def by blast
qed

lemma topological_sort_acyclic:
  assumes ok: "graph_ok g" and ac: "acyclic (edges g)"
  shows "distinct (topological_sort g) \<and> set (topological_sort g) = fst ` set g \<and>
     (\<forall>(a, b) \<in> edges g. \<exists>i j. i < j \<and> j < length (topological_sort g) \<and>
          topological_sort g ! i = a \<and> topological_sort g ! j = b)"
proof -
  have s: "set (topological_sort g) = fst ` set g"
    using topological_sort_sound(2)[OF ok] topological_sort_complete[OF ok ac] by blast
  have "\<exists>i j. i < j \<and> j < length (topological_sort g) \<and>
          topological_sort g ! i = a \<and> topological_sort g ! j = b" if "(a, b) \<in> edges g" for a b
    using ordered_before[OF topological_sort_sound(3)[OF ok] that] edges_target[OF ok that] s
    by blast
  with s topological_sort_sound(1)[OF ok] show ?thesis by blast
qed



subsection \<open>Every graph the calls build is well formed\<close>

definition state_ok :: "dependency_graph \<Rightarrow> bool" where
  "state_ok s = (graph_ok (graph s) \<and>
     (\<forall>m. set (map_get (pending_module_dependents s) m) \<subseteq> fst ` set (graph s)))"

lemma graph_ok_iff:
  "graph_ok g \<longleftrightarrow> distinct (map fst g) \<and>
     (\<forall>a. distinct (graph_get g a) \<and> set (graph_get g a) \<subseteq> fst ` set g)"
proof
  assume ok: "graph_ok g"
  then show "distinct (map fst g) \<and>
     (\<forall>a. distinct (graph_get g a) \<and> set (graph_get g a) \<subseteq> fst ` set g)"
    using graph_ok_get[OF ok] by (simp add: graph_ok_def)
next
  assume r: "distinct (map fst g) \<and>
     (\<forall>a. distinct (graph_get g a) \<and> set (graph_get g a) \<subseteq> fst ` set g)"
  have "distinct ds \<and> set ds \<subseteq> fst ` set g" if "(n, ds) \<in> set g" for n ds
  proof -
    from r that have "graph_get g n = ds" by (simp add: graph_get_mem)
    with r show ?thesis by blast
  qed
  with r show "graph_ok g" unfolding graph_ok_def by blast
qed

lemma distinct_keys_ensure: "distinct (map fst (graph_ensure k g)) = distinct (map fst g)"
  by (auto simp: graph_ensure_def)

lemma distinct_keys_add: "distinct (map fst g) \<Longrightarrow> distinct (map fst (graph_add k x g))"
  by (simp add: graph_add_def distinct_update)

lemma graph_ok_ensure: "graph_ok g \<Longrightarrow> graph_ok (graph_ensure k g)"
  unfolding graph_ok_iff by (auto simp: distinct_keys_ensure)

lemma graph_ok_add:
  "graph_ok g \<Longrightarrow> k \<in> fst ` set g \<Longrightarrow> x \<in> fst ` set g \<Longrightarrow> graph_ok (graph_add k x g)"
  unfolding graph_ok_iff by (auto simp: distinct_keys_add)

lemma state_ok_backfill:
  assumes "state_ok s" "fp \<in> fst ` set (graph s)" "c \<in> fst ` set (graph s)"
  shows "state_ok (backfill fp c s)" and "fst ` set (graph (backfill fp c s)) = fst ` set (graph s)"
proof -
  show k: "fst ` set (graph (backfill fp c s)) = fst ` set (graph s)"
    using assms(2) by (auto simp: backfill_def)
  have "graph_ok (graph (backfill fp c s))"
    using assms graph_ok_add[of "graph s" fp c] by (simp add: backfill_def state_ok_def)
  moreover have "pending_module_dependents (backfill fp c s) = pending_module_dependents s"
    by (simp add: backfill_def)
  ultimately show "state_ok (backfill fp c s)"
    using assms(1) unfolding state_ok_def k by simp
qed

lemma state_ok_fold_backfill:
  "state_ok s \<Longrightarrow> fp \<in> fst ` set (graph s) \<Longrightarrow> set cs \<subseteq> fst ` set (graph s) \<Longrightarrow>
   state_ok (fold (backfill fp) cs s)"
proof (induction cs arbitrary: s)
  case Nil
  then show ?case by simp
next
  case (Cons c cs)
  from Cons.prems have c: "c \<in> fst ` set (graph s)" by simp
  note b = state_ok_backfill[OF Cons.prems(1,2) c]
  have "state_ok (fold (backfill fp) cs (backfill fp c s))"
    using Cons.prems by (intro Cons.IH) (simp_all add: b)
  then show ?case by simp
qed

lemma map_get_remove: "map_get (f(m := None)) m' = (if m' = m then [] else map_get f m')"
  by (simp add: map_get_def)

lemma state_ok_add_file: "state_ok s \<Longrightarrow> state_ok (add_file r p m c s)"
  unfolding add_file_def Let_def
proof (rule state_ok_fold_backfill, goal_cases)
  case 1
  then show ?case
    by (auto simp: state_ok_def graph_ok_ensure map_get_remove split: option.splits)
next
  case 2
  then show ?case by (simp split: option.splits)
next
  case 3
  then show ?case by (auto simp: state_ok_def split: option.splits)
qed

lemma state_ok_add_dependency: "state_ok s \<Longrightarrow> state_ok (add_dependency r p m s)"
proof -
  assume ok: "state_ok s"
  let ?g1 = "graph_ensure (r p) (graph s)"
  have g1: "graph_ok ?g1" using ok by (simp add: state_ok_def graph_ok_ensure)
  show ?thesis
  proof (cases "module_to_file s m")
    case None
    then show ?thesis
      using ok g1 by (auto simp: add_dependency_def Let_def state_ok_def)
  next
    case (Some to_file)
    have "graph_ok (graph_add to_file (r p) (graph_ensure to_file ?g1))"
      by (intro graph_ok_add graph_ok_ensure g1) simp_all
    then show ?thesis
      using ok Some by (auto simp: add_dependency_def Let_def state_ok_def)
  qed
qed

lemma state_ok_init: "state_ok init_graph"
  by (simp add: state_ok_def init_graph_def graph_ok_def map_get_def)

lemma state_ok_run: "state_ok s \<Longrightarrow> state_ok (run r cs s)"
proof (induction cs arbitrary: s)
  case Nil
  then show ?case by (simp add: run_def)
next
  case (Cons c cs)
  have "state_ok (apply_call r c s)"
    using Cons.prems by (cases c) (simp_all add: state_ok_add_file state_ok_add_dependency)
  then show ?case by (simp add: run_Cons Cons.IH)
qed

lemma graph_ok_run: "graph_ok (graph (run r cs init_graph))"
  using state_ok_run[OF state_ok_init] by (simp add: state_ok_def)

lemmas eval_ops = run_def add_file_def add_dependency_def init_graph_def Let_def graph_ensure_def
  graph_add_def graph_get_def map_get_def map_ensure_def map_add_elem_def set_add_def backfill_def

lemma edges_list: "distinct (map fst g) \<Longrightarrow> edges g = (\<Union>(n, ds) \<in> set g. {n} \<times> set ds)"
proof -
  assume d: "distinct (map fst g)"
  have "(a, b) \<in> edges g \<longleftrightarrow> (\<exists>ds. (a, ds) \<in> set g \<and> b \<in> set ds)" for a b
  proof
    assume e: "(a, b) \<in> edges g"
    then have "(a, graph_get g a) \<in> set g" by (intro graph_get_key edges_key)
    with e show "\<exists>ds. (a, ds) \<in> set g \<and> b \<in> set ds" by (auto simp: edges_def)
  next
    assume "\<exists>ds. (a, ds) \<in> set g \<and> b \<in> set ds"
    with d show "(a, b) \<in> edges g" by (auto simp: edges_def graph_get_mem)
  qed
  then show ?thesis by auto
qed

lemma acyclic_empty: "acyclic {}"
  by (simp add: acyclic_def)

text \<open>
  C5. On the graph built by any sequence of calls, if the edges are acyclic then
  \<^verbatim>\<open>topological_sort\<close> returns every key exactly once, and for every edge
  dependency \<open>a\<close> to consumer \<open>b\<close> the position of \<open>a\<close> is strictly before that of \<open>b\<close>.
\<close>

theorem topological_sort_dependencies_first:
  assumes "acyclic (edges (graph (run r cs init_graph)))"
  shows "distinct (topological_sort (graph (run r cs init_graph))) \<and>
     set (topological_sort (graph (run r cs init_graph))) = fst ` set (graph (run r cs init_graph)) \<and>
     (\<forall>(a, b) \<in> edges (graph (run r cs init_graph)).
        \<exists>i j. i < j \<and> j < length (topological_sort (graph (run r cs init_graph))) \<and>
          topological_sort (graph (run r cs init_graph)) ! i = a \<and>
          topological_sort (graph (run r cs init_graph)) ! j = b)"
  using topological_sort_acyclic[OF graph_ok_run assms] .

definition example_calls :: "call list" where
  "example_calls =
     [AddFile ''main.lua'' ''main'' None, AddDependency ''main.lua'' ''util'',
      AddDependency ''main.lua'' ''log'', AddFile ''util.lua'' ''util'' None,
      AddFile ''log.lua'' ''log'' None, AddDependency ''util.lua'' ''log'']"

lemma example_graph:
  "graph (run (\<lambda>p. p) example_calls init_graph) =
     [(''main.lua'', []), (''util.lua'', [''main.lua'']), (''log.lua'', [''main.lua'', ''util.lua''])]"
  by (simp add: example_calls_def eval_ops)

lemma example_acyclic: "acyclic (edges (graph (run (\<lambda>p. p) example_calls init_graph)))"
  unfolding example_graph
  by (rule acyclicI_order
        [where f = "\<lambda>p. if p = ''log.lua'' then 2 else if p = ''util.lua'' then 1 else (0::nat)"])
     (auto simp: edges_list)

lemma example_sorted:
  "topological_sort (graph (run (\<lambda>p. p) example_calls init_graph)) =
     [''log.lua'', ''util.lua'', ''main.lua'']"
  unfolding example_graph
  by (simp add: topological_sort_def in_degree_init_def graph_get_def)

theorem topological_sort_dependencies_first_witness:
  "acyclic (edges (graph (run (\<lambda>p. p) example_calls init_graph))) \<and>
   topological_sort (graph (run (\<lambda>p. p) example_calls init_graph)) =
     [''log.lua'', ''util.lua'', ''main.lua''] \<and>
   set (topological_sort (graph (run (\<lambda>p. p) example_calls init_graph))) =
     fst ` set (graph (run (\<lambda>p. p) example_calls init_graph))"
  using topological_sort_dependencies_first[OF example_acyclic] example_acyclic example_sorted
  by blast

section \<open>Dependency closure\<close>

text \<open>
  The inner \<^verbatim>\<open>dfs\<close> of \<^verbatim>\<open>get_all_dependencies\<close> is recursive; the first argument bounds
  the depth of the recursion, and \<open>None\<close> is a recursion deeper than the bound.
  \<^verbatim>\<open>dependencies\<close> is iterated afterwards and is a list; \<^verbatim>\<open>visited\<close> is only tested.
\<close>

fun all_deps_dfs :: "nat \<Rightarrow> (path \<rightharpoonup> path list) \<Rightarrow> path \<Rightarrow> path set \<times> path list \<Rightarrow>
    (path set \<times> path list) option"
and all_deps_loop :: "nat \<Rightarrow> (path \<rightharpoonup> path list) \<Rightarrow> path list \<Rightarrow> path set \<times> path list \<Rightarrow>
    (path set \<times> path list) option"
where
  "all_deps_dfs 0 rg node st = None"
| "all_deps_dfs (Suc n) rg node (visited, dependencies) =
     (if node \<in> visited then Some (visited, dependencies)
      else all_deps_loop n rg (map_get rg node) (insert node visited, dependencies))"
| "all_deps_loop n rg [] st = Some st"
| "all_deps_loop n rg (dep # deps) (visited, dependencies) =
     (case all_deps_dfs n rg dep (visited, set_add dep dependencies) of
        None \<Rightarrow> None
      | Some st' \<Rightarrow> all_deps_loop n rg deps st')"

definition get_all_dependencies ::
  "nat \<Rightarrow> (string \<Rightarrow> path) \<Rightarrow> string \<Rightarrow> dependency_graph \<Rightarrow> path list option"
where
  "get_all_dependencies limit resolve file_path s =
     map_option snd (all_deps_dfs limit (reverse_graph s) (resolve file_path) ({}, []))"

section \<open>Cycle detection\<close>


record dfs_state =
  cycles :: "path list list"
  visited :: "path set"
  rec_stack :: "path set"





text \<open>
  A reported cycle through three given nodes; the invariant of the search for a cycle
  whose edges are the only ones leaving its nodes; and what a call of the search needs
  and guarantees.
\<close>

definition witnessed :: "path \<Rightarrow> path \<Rightarrow> path \<Rightarrow> dfs_state \<Rightarrow> bool" where
  "witnessed a b c st = (\<exists>cy \<in> set (cycles st). a \<in> set cy \<and> b \<in> set cy \<and> c \<in> set cy)"

definition cycle_inv :: "path \<Rightarrow> path \<Rightarrow> path \<Rightarrow> dfs_state \<Rightarrow> bool" where
  "cycle_inv a b c st =
     (witnessed a b c st \<or> (a \<notin> visited st \<and> b \<notin> visited st \<and> c \<notin> visited st))"













lemma cycle_inv_rotate: "cycle_inv b c a st = cycle_inv a b c st"
  unfolding cycle_inv_def witnessed_def by blast




























section \<open>Restoration order\<close>

text \<open>
  \<^verbatim>\<open>get_restoration_order\<close>: the keys of \<^verbatim>\<open>subgraph\<close> are the closure and the start file,
  each with its whole forward set \<^verbatim>\<open>self.graph.get(dep, set())\<close>. The sort then runs on
  \<^verbatim>\<open>subgraph\<close>, and \<^verbatim>\<open>self.graph\<close> is put back afterwards.
\<close>

definition get_restoration_order ::
  "nat \<Rightarrow> (string \<Rightarrow> path) \<Rightarrow> string \<Rightarrow> dependency_graph \<Rightarrow> path list option"
where
  "get_restoration_order limit resolve start_file s =
     (let start_file_str = resolve start_file
      in if start_file_str \<notin> fst ` set (graph s) then Some [start_file_str]
         else case get_all_dependencies limit resolve start_file_str s of
                None \<Rightarrow> None
              | Some all_deps \<Rightarrow>
                  let subgraph = fold (\<lambda>dep sg. AList.update dep (graph_get (graph s) dep) sg) all_deps [];
                      subgraph = AList.update start_file_str (graph_get (graph s) start_file_str) subgraph
                  in Some (topological_sort subgraph))"

text \<open>
  Two files that both require \<^verbatim>\<open>util\<close>.
\<close>

definition shared_dependency :: dependency_graph where
  "shared_dependency = run (\<lambda>p. p)
     [AddFile ''util.lua'' ''util'' None, AddFile ''main.lua'' ''main'' None,
      AddFile ''other.lua'' ''other'' None,
      AddDependency ''main.lua'' ''util'', AddDependency ''other.lua'' ''util''] init_graph"

lemma shared_dependency_graph:
  "graph shared_dependency =
     [(''util.lua'', [''main.lua'', ''other.lua'']), (''main.lua'', []), (''other.lua'', [])]"
  by (simp add: shared_dependency_def eval_ops)

lemma shared_dependency_reverse:
  "reverse_graph shared_dependency =
     [''util.lua'' \<mapsto> [], ''main.lua'' \<mapsto> [''util.lua''], ''other.lua'' \<mapsto> [''util.lua'']]"
  by (simp add: shared_dependency_def eval_ops)

text \<open>
  C1 fails on the code. The closure of \<^verbatim>\<open>main.lua\<close> is \<^verbatim>\<open>util.lua\<close> alone, yet the
  restoration order of \<^verbatim>\<open>main.lua\<close> ends with \<^verbatim>\<open>other.lua\<close>: the forward set of
  \<^verbatim>\<open>util.lua\<close> is copied into the subgraph unfiltered, and the sort emits every member of it
  whose count reaches 0.
\<close>

theorem restoration_order_leaves_closure:
  "get_all_dependencies 2 (\<lambda>p. p) ''main.lua'' shared_dependency = Some [''util.lua''] \<and>
   get_restoration_order 2 (\<lambda>p. p) ''main.lua'' shared_dependency =
     Some [''util.lua'', ''main.lua'', ''other.lua''] \<and>
   ''other.lua'' \<notin> set [''util.lua''] \<union> {''main.lua''}"
  by (simp add: get_restoration_order_def get_all_dependencies_def shared_dependency_graph
      shared_dependency_reverse eval_nat_numeral map_get_def set_add_def graph_get_def
      topological_sort_def in_degree_init_def)

section \<open>The module resolver of \<^verbatim>\<open>src/lua_module_resolver.py\<close>\<close>

text \<open>
  The file system is the predicate \<open>exists\<close> on path texts. A \<^verbatim>\<open>Path\<close> is its text as
  \<^verbatim>\<open>os.path.join\<close> builds it on POSIX (\<^verbatim>\<open>/\<close> for a \<^verbatim>\<open>Path\<close> joins the same way):
  a segment that starts with the separator replaces what precedes it, otherwise it is
  appended after one separator. \<^verbatim>\<open>Path\<close> also drops doubled separators and \<^verbatim>\<open>.\<close>
  segments from the text; both texts name the same file and this is not modelled.
\<close>

fun split_on :: "char \<Rightarrow> string \<Rightarrow> string list" where
  "split_on sep [] = [[]]"
| "split_on sep (c # cs) =
     (if c = sep then [] # split_on sep cs
      else case split_on sep cs of
             w # ws \<Rightarrow> (c # w) # ws
           | [] \<Rightarrow> [[c]])"

fun join_with :: "string \<Rightarrow> string list \<Rightarrow> string" where
  "join_with sep [] = []"
| "join_with sep [x] = x"
| "join_with sep (x # y # zs) = x @ sep @ join_with sep (y # zs)"

definition lstrip :: "char \<Rightarrow> string \<Rightarrow> string" where
  "lstrip c s = dropWhile (\<lambda>x. x = c) s"

definition path_join_step :: "string \<Rightarrow> string \<Rightarrow> string" where
  "path_join_step b path =
     (if b \<noteq> [] \<and> hd b = CHR ''/'' then b
      else if path = [] \<or> last path = CHR ''/'' then path @ b
      else path @ ''/'' @ b)"

definition os_path_join :: "string \<Rightarrow> string list \<Rightarrow> string" where
  "os_path_join a p = fold path_join_step p a"

definition extensions :: "string list" where
  "extensions = [''.lua.unluac'', ''.lua'', ''.so'', ''.dll'', ''.dylib'']"

text \<open>
  The loop over \<^verbatim>\<open>extensions\<close> tries two paths for each extension, and the loop over
  \<^verbatim>\<open>self.base_paths\<close> is around it.
\<close>

fun try_extensions :: "(path \<Rightarrow> bool) \<Rightarrow> string \<Rightarrow> string list \<Rightarrow> string list \<Rightarrow> path option" where
  "try_extensions exists base_path path_parts [] = None"
| "try_extensions exists base_path path_parts (ext # exts) =
     (let file_path = os_path_join base_path [join_with ''/'' path_parts, lstrip CHR ''.'' ext]
      in if exists file_path then Some file_path
         else let file_path = os_path_join base_path path_parts @ ext
              in if exists file_path then Some file_path
                 else try_extensions exists base_path path_parts exts)"

fun try_base_paths :: "(path \<Rightarrow> bool) \<Rightarrow> string list \<Rightarrow> string list \<Rightarrow> path option" where
  "try_base_paths exists path_parts [] = None"
| "try_base_paths exists path_parts (base_path # rest) =
     (case try_extensions exists base_path path_parts extensions of
        Some file_path \<Rightarrow> Some file_path
      | None \<Rightarrow> try_base_paths exists path_parts rest)"

definition resolve_module_to_path :: "(path \<Rightarrow> bool) \<Rightarrow> string list \<Rightarrow> string \<Rightarrow> path option" where
  "resolve_module_to_path exists base_paths module_name =
     try_base_paths exists (split_on CHR ''.'' module_name) base_paths"

text \<open>
  The candidates as the specification words them: base directories outermost, extensions
  innermost, each candidate the base joined with the segments and the extension appended.
\<close>

definition spec_candidates :: "string list \<Rightarrow> string \<Rightarrow> path list" where
  "spec_candidates base_paths module_name =
     concat (map (\<lambda>base_path.
        map (\<lambda>ext. os_path_join base_path (split_on CHR ''.'' module_name) @ ext) extensions)
       base_paths)"

definition spec_resolve :: "(path \<Rightarrow> bool) \<Rightarrow> string list \<Rightarrow> string \<Rightarrow> path option" where
  "spec_resolve exists base_paths module_name = find exists (spec_candidates base_paths module_name)"


text \<open>
  C4 fails on the code. With \<^verbatim>\<open>root/a.lua\<close> and an entry \<^verbatim>\<open>lua\<close> in the directory
  \<^verbatim>\<open>root/a\<close>, module \<^verbatim>\<open>a\<close> resolves to \<^verbatim>\<open>root/a/lua\<close>, which is none of the candidates
  of the specification; the first existing one of those is \<^verbatim>\<open>root/a.lua\<close>.
\<close>

theorem resolve_returns_other_shape:
  "resolve_module_to_path (\<lambda>p. p \<in> {''root/a/lua'', ''root/a.lua''}) [''root''] ''a'' =
     Some ''root/a/lua'' \<and>
   spec_resolve (\<lambda>p. p \<in> {''root/a/lua'', ''root/a.lua''}) [''root''] ''a'' = Some ''root/a.lua'' \<and>
   ''root/a/lua'' \<notin> set (spec_candidates [''root''] ''a'')"
  by (simp add: resolve_module_to_path_def spec_resolve_def spec_candidates_def extensions_def
       os_path_join_def path_join_step_def lstrip_def)

section \<open>Extraction of \<^verbatim>\<open>require\<close> statements\<close>















end
